theory Spec2Isabelle
  imports Main "HOL-Library.Word" "HOL-Library.AList"
begin

unbundle bit_operations_syntax

section \<open>Data model of package pak\<close>

text \<open>
  Package \<^verbatim>\<open>pak\<close> reads and writes Chromium \<^verbatim>\<open>.pak\<close> resource files. This theory
  embeds its two functions \<^verbatim>\<open>Read\<close> and \<^verbatim>\<open>Write\<close> (file \<^verbatim>\<open>pak.go\<close>) with the integer
  widths of the source: \<^verbatim>\<open>uint8\<close>, \<^verbatim>\<open>uint16\<close> and \<^verbatim>\<open>uint32\<close> are words, whose
  arithmetic wraps around as Go's does.
\<close>

type_synonym byte = "8 word"
type_synonym uint16 = "16 word"
type_synonym uint32 = "32 word"

text \<open>
  \<^verbatim>\<open>type PakFile struct { Version uint32; Encoding uint8; Resourses map[uint16][]byte }\<close>

  The Go map is an association list whose keys are pairwise distinct (\<open>pak_inv\<close>
  below). The order of the list is the order in which a \<^verbatim>\<open>range\<close> loop visits the
  map, which Go leaves unspecified; two lists with the same \<open>map_of\<close> are the same
  Go map visited in two orders.
\<close>

record PakFile =
  Version :: uint32
  Encoding :: byte
  Resourses :: "(uint16 \<times> byte list) list"

definition pak_inv :: "PakFile \<Rightarrow> bool" where
  "pak_inv p = distinct (map fst (Resourses p))"

definition EncodingBinary :: byte where "EncodingBinary = 0"
definition EncodingUTF8 :: byte where "EncodingUTF8 = 1"
definition EncodingUTF16 :: byte where "EncodingUTF16 = 2"

text \<open>
  \<^verbatim>\<open>type resourceInfo struct { id uint16; offset uint32 }\<close>; the field \<^verbatim>\<open>id\<close> is
  \<open>id_ri\<close> here, \<open>id\<close> being the identity function of HOL.
\<close>

record resourceInfo =
  id_ri :: uint16
  offset :: uint32

text \<open>
  The error values of \<^verbatim>\<open>Read\<close> and \<^verbatim>\<open>Write\<close>: \<^verbatim>\<open>io.EOF\<close> and
  \<^verbatim>\<open>io.ErrUnexpectedEOF\<close> come from the reader, the four \<^verbatim>\<open>fmt.Errorf\<close> values
  from the package itself, and \<open>PanicIndexOutOfRange\<close> is the run-time panic of an
  index expression outside the bounds of its slice.
\<close>

datatype error =
    EOF
  | ErrUnexpectedEOF
  | ErrLastId                \<comment> \<open>\<^verbatim>\<open>"error reading resources: last id != 0"\<close>\<close>
  | ErrReadResource uint16   \<comment> \<open>\<^verbatim>\<open>"error reading resource id=%d"\<close>\<close>
  | ErrNilPak                \<comment> \<open>\<^verbatim>\<open>"error writing pak: p == nil"\<close>\<close>
  | ErrWriteResource uint16  \<comment> \<open>\<^verbatim>\<open>"error writing resource id=%d"\<close>\<close>
  | PanicIndexOutOfRange

section \<open>The reader and the writer\<close>

text \<open>
  The \<^verbatim>\<open>io.Reader\<close> is the list of the bytes not yet consumed, read the way the
  file that \<^verbatim>\<open>ReadFile\<close> opens (and a \<^verbatim>\<open>bytes.Buffer\<close>) is read: a call
  \<^verbatim>\<open>r.Read(buf)\<close> with an empty \<^verbatim>\<open>buf\<close> returns \<^verbatim>\<open>0, nil\<close>; with no byte left it
  returns \<^verbatim>\<open>0, io.EOF\<close>; otherwise it fills \<^verbatim>\<open>buf\<close> with the next
  \<open>min (len buf) (bytes left)\<close> bytes and returns their number and \<^verbatim>\<open>nil\<close>.
  The result is the count, the error if any, the bytes read and the rest of the stream.
\<close>

definition reader_Read :: "nat \<Rightarrow> byte list \<Rightarrow> nat \<times> error option \<times> byte list \<times> byte list" where
  "reader_Read len r =
     (if len = 0 then (0, None, [], r)
      else if r = [] then (0, Some EOF, [], r)
      else (min len (length r), None, take len r, drop len r))"

text \<open>
  \<^verbatim>\<open>io.ReadFull(r, buf)\<close>, which \<^verbatim>\<open>binary.Read\<close> calls: \<^verbatim>\<open>io.EOF\<close> when no byte
  could be read, \<^verbatim>\<open>io.ErrUnexpectedEOF\<close> when the stream ends inside \<^verbatim>\<open>buf\<close>.
\<close>

definition ReadFull :: "nat \<Rightarrow> byte list \<Rightarrow> error + (byte list \<times> byte list)" where
  "ReadFull len r =
     (if len = 0 then Inr ([], r)
      else if r = [] then Inl EOF
      else if length r < len then Inl ErrUnexpectedEOF
      else Inr (take len r, drop len r))"

text \<open>\<^verbatim>\<open>binary.LittleEndian\<close>: decoding and encoding of the fixed-size integers.\<close>

definition Uint16 :: "byte list \<Rightarrow> uint16" where
  "Uint16 b = ucast (b ! 0) OR push_bit 8 (ucast (b ! 1))"

definition Uint32 :: "byte list \<Rightarrow> uint32" where
  "Uint32 b = ucast (b ! 0) OR push_bit 8 (ucast (b ! 1))
                OR push_bit 16 (ucast (b ! 2)) OR push_bit 24 (ucast (b ! 3))"

definition PutUint16 :: "uint16 \<Rightarrow> byte list" where
  "PutUint16 v = [ucast v, ucast (drop_bit 8 v)]"

definition PutUint32 :: "uint32 \<Rightarrow> byte list" where
  "PutUint32 v = [ucast v, ucast (drop_bit 8 v), ucast (drop_bit 16 v), ucast (drop_bit 24 v)]"

text \<open>\<^verbatim>\<open>binary.Read(r, binary.LittleEndian, &v)\<close> for \<^verbatim>\<open>v\<close> of the three integer types.\<close>

definition binary_Read_uint8 :: "byte list \<Rightarrow> error + (byte \<times> byte list)" where
  "binary_Read_uint8 r =
     (case ReadFull 1 r of Inl err \<Rightarrow> Inl err | Inr (bs, r') \<Rightarrow> Inr (bs ! 0, r'))"

definition binary_Read_uint16 :: "byte list \<Rightarrow> error + (uint16 \<times> byte list)" where
  "binary_Read_uint16 r =
     (case ReadFull 2 r of Inl err \<Rightarrow> Inl err | Inr (bs, r') \<Rightarrow> Inr (Uint16 bs, r'))"

definition binary_Read_uint32 :: "byte list \<Rightarrow> error + (uint32 \<times> byte list)" where
  "binary_Read_uint32 r =
     (case ReadFull 4 r of Inl err \<Rightarrow> Inl err | Inr (bs, r') \<Rightarrow> Inr (Uint32 bs, r'))"

section \<open>Read\<close>

text \<open>
  The first loop of \<^verbatim>\<open>Read\<close>, \<^verbatim>\<open>for i = 0; i < numberOfResources+1; i++\<close>: the
  argument is the number of rounds left, and the entries come back in the order read.
\<close>

fun read_infos :: "nat \<Rightarrow> byte list \<Rightarrow> error + (resourceInfo list \<times> byte list)" where
  "read_infos 0 r = Inr ([], r)"
| "read_infos (Suc k) r =
     (case binary_Read_uint16 r of Inl err \<Rightarrow> Inl err | Inr (i, r1) \<Rightarrow>
     (case binary_Read_uint32 r1 of Inl err \<Rightarrow> Inl err | Inr (off, r2) \<Rightarrow>
     (case read_infos k r2 of Inl err \<Rightarrow> Inl err | Inr (ris, r3) \<Rightarrow>
        Inr (\<lparr>id_ri = i, offset = off\<rparr> # ris, r3))))"

text \<open>
  The second loop, \<^verbatim>\<open>for i = 0; i < numberOfResources; i++\<close>, which looks at
  \<^verbatim>\<open>resInfos[i]\<close> and \<^verbatim>\<open>resInfos[i+1]\<close>: one round for each pair of neighbours of
  the \<open>numberOfResources + 1\<close> entries. The subtraction of the offsets is that of
  \<^verbatim>\<open>uint32\<close> and wraps around.
\<close>

fun read_resources ::
  "resourceInfo list \<Rightarrow> byte list \<Rightarrow> (uint16 \<times> byte list) list \<Rightarrow> error + (uint16 \<times> byte list) list"
where
  "read_resources (ri # ri' # ris) r m =
     (let resId = id_ri ri;
          resLength = offset ri' - offset ri
      in (case reader_Read (unat resLength) r of
            (n, Some err, resData, r') \<Rightarrow> Inl err
          | (n, None, resData, r') \<Rightarrow>
              if n \<noteq> unat resLength then Inl (ErrReadResource resId)
              else read_resources (ri' # ris) r' (AList.update resId resData m)))"
| "read_resources ris r m = Inr m"

definition Read :: "byte list \<Rightarrow> error + PakFile" where
  "Read r =
     (case binary_Read_uint32 r of Inl err \<Rightarrow> Inl err | Inr (version, r1) \<Rightarrow>
     (case binary_Read_uint32 r1 of Inl err \<Rightarrow> Inl err | Inr (numberOfResources, r2) \<Rightarrow>
     (case binary_Read_uint8 r2 of Inl err \<Rightarrow> Inl err | Inr (encoding, r3) \<Rightarrow>
     (case read_infos (unat (numberOfResources + 1)) r3 of Inl err \<Rightarrow> Inl err
      | Inr (resInfos, r4) \<Rightarrow>
          if \<not> unat numberOfResources < length resInfos then Inl PanicIndexOutOfRange
          else if id_ri (resInfos ! unat numberOfResources) \<noteq> 0 then Inl ErrLastId
          else (case read_resources resInfos r4 [] of Inl err \<Rightarrow> Inl err
                | Inr res \<Rightarrow> Inr \<lparr>Version = version, Encoding = encoding, Resourses = res\<rparr>)))))"

section \<open>Write\<close>

text \<open>
  The \<^verbatim>\<open>io.Writer\<close> is the list of the bytes written so far, written the way a
  \<^verbatim>\<open>bytes.Buffer\<close> is: \<^verbatim>\<open>w.Write(buf)\<close> appends \<^verbatim>\<open>buf\<close> and returns its length and
  \<^verbatim>\<open>nil\<close>. The result is the count, the error if any and the new content.
\<close>

definition writer_Write :: "byte list \<Rightarrow> byte list \<Rightarrow> nat \<times> error option \<times> byte list" where
  "writer_Write buf w = (length buf, None, w @ buf)"

text \<open>
  \<^verbatim>\<open>binary.Write(w, binary.LittleEndian, v)\<close>: the bytes of \<^verbatim>\<open>v\<close> go to the writer in
  one call, and the call's error is returned.
\<close>

definition binary_Write :: "byte list \<Rightarrow> byte list \<Rightarrow> error option \<times> byte list" where
  "binary_Write bs w = (case writer_Write bs w of (n, err, w') \<Rightarrow> (err, w'))"

text \<open>\<^verbatim>\<open>p.Resourses[resId]\<close> is the empty slice for a key that is not in the map.\<close>

definition lookup_res :: "PakFile \<Rightarrow> uint16 \<Rightarrow> byte list" where
  "lookup_res p resId = (case map_of (Resourses p) resId of None \<Rightarrow> [] | Some d \<Rightarrow> d)"

text \<open>
  The loop that writes the index: for each identifier the entry
  \<open>(resId, curOffset)\<close>, then \<^verbatim>\<open>curOffset += uint32(len(p.Resourses[resId]))\<close>. The
  result is the error if any, the last value of \<^verbatim>\<open>curOffset\<close> and the writer.
\<close>

fun write_index ::
  "PakFile \<Rightarrow> int list \<Rightarrow> uint32 \<Rightarrow> byte list \<Rightarrow> error option \<times> uint32 \<times> byte list"
where
  "write_index p [] curOffset w = (None, curOffset, w)"
| "write_index p (i # ids) curOffset w =
     (let resId = (word_of_int i :: uint16)
      in (case binary_Write (PutUint16 resId) w of
            (Some err, w1) \<Rightarrow> (Some err, curOffset, w1)
          | (None, w1) \<Rightarrow>
         (case binary_Write (PutUint32 curOffset) w1 of
            (Some err, w2) \<Rightarrow> (Some err, curOffset, w2)
          | (None, w2) \<Rightarrow>
              write_index p ids (curOffset + word_of_nat (length (lookup_res p resId))) w2)))"

text \<open>The loop that writes the resources, in the order of \<^verbatim>\<open>ids\<close>.\<close>

fun write_resources :: "PakFile \<Rightarrow> int list \<Rightarrow> byte list \<Rightarrow> error option \<times> byte list" where
  "write_resources p [] w = (None, w)"
| "write_resources p (i # ids) w =
     (let resId = (word_of_int i :: uint16);
          resData = lookup_res p resId;
          resLength = length resData
      in (case writer_Write resData w of
            (n, Some err, w') \<Rightarrow> (Some err, w')
          | (n, None, w') \<Rightarrow>
              if n \<noteq> resLength then (Some (ErrWriteResource resId), w')
              else write_resources p ids w'))"

text \<open>
  \<^verbatim>\<open>Write\<close> returns its error, or \<open>None\<close> for \<^verbatim>\<open>nil\<close>, and the content of the writer
  when it returns.
\<close>

definition Write :: "PakFile option \<Rightarrow> byte list \<Rightarrow> error option \<times> byte list" where
  "Write po w =
     (case po of None \<Rightarrow> (Some ErrNilPak, w)
      | Some p \<Rightarrow>
          let numberOfResources = (word_of_nat (length (Resourses p)) :: uint32)
          in (case binary_Write (PutUint32 (Version p)) w of
                (Some err, w1) \<Rightarrow> (Some err, w1)
              | (None, w1) \<Rightarrow>
             (case binary_Write (PutUint32 numberOfResources) w1 of
                (Some err, w2) \<Rightarrow> (Some err, w2)
              | (None, w2) \<Rightarrow>
             (case binary_Write [Encoding p] w2 of
                (Some err, w3) \<Rightarrow> (Some err, w3)
              | (None, w3) \<Rightarrow>
                  let indexLength = (2 + 4) * (numberOfResources + 1);
                      curOffset = 9 + indexLength;
                      ids = sort (map (\<lambda>(resId, _). uint resId) (Resourses p))
                  in (case write_index p ids curOffset w3 of
                        (Some err, final, w4) \<Rightarrow> (Some err, w4)
                      | (None, final, w4) \<Rightarrow>
                     (case binary_Write (PutUint16 0) w4 of
                        (Some err, w5) \<Rightarrow> (Some err, w5)
                      | (None, w5) \<Rightarrow>
                     (case binary_Write (PutUint32 final) w5 of
                        (Some err, w6) \<Rightarrow> (Some err, w6)
                      | (None, w6) \<Rightarrow> write_resources p ids w6)))))))"

section \<open>The layout of a file\<close>

text \<open>
  The notions in which the theorems below describe a stream: they are not functions of
  the package. First the nine bytes of a header and the six bytes of an index entry, as
  \<^verbatim>\<open>Write\<close> writes them and \<^verbatim>\<open>Read\<close> reads them.
\<close>

definition pak_header :: "uint32 \<Rightarrow> uint32 \<Rightarrow> byte \<Rightarrow> byte list" where
  "pak_header version numberOfResources encoding =
     PutUint32 version @ PutUint32 numberOfResources @ [encoding]"

definition put_info :: "resourceInfo \<Rightarrow> byte list" where
  "put_info ri = PutUint16 (id_ri ri) @ PutUint32 (offset ri)"

definition put_infos :: "resourceInfo list \<Rightarrow> byte list" where
  "put_infos ris = concat (map put_info ris)"

text \<open>
  The lengths that an index declares: for each entry but the last, the difference of the
  next offset and its own, in \<^verbatim>\<open>uint32\<close>.
\<close>

fun declared_lengths :: "resourceInfo list \<Rightarrow> nat list" where
  "declared_lengths (ri # ri' # ris) = unat (offset ri' - offset ri) # declared_lengths (ri' # ris)"
| "declared_lengths [ri] = []"
| "declared_lengths [] = []"

text \<open>
  The index that \<^verbatim>\<open>Write\<close> writes for identifiers with the given payload lengths when
  \<^verbatim>\<open>curOffset\<close> starts at \<open>cur\<close>, as a list of entries: one entry for each
  identifier and the entry with identifier 0 at the end.
\<close>

fun index_from :: "uint32 \<Rightarrow> (uint16 \<times> nat) list \<Rightarrow> resourceInfo list" where
  "index_from cur [] = [\<lparr>id_ri = 0, offset = cur\<rparr>]"
| "index_from cur ((k, l) # kls) = \<lparr>id_ri = k, offset = cur\<rparr> # index_from (cur + word_of_nat l) kls"

text \<open>The identifiers of a table in ascending order.\<close>

definition ids_ascending :: "PakFile \<Rightarrow> uint16 list" where
  "ids_ascending p = sort (map fst (Resourses p))"

text \<open>The table that successive assignments \<^verbatim>\<open>m[k] = d\<close> build from \<open>m\<close>.\<close>

definition assign_all :: "(uint16 \<times> byte list) list \<Rightarrow> (uint16 \<times> byte list) list \<Rightarrow> (uint16 \<times> byte list) list" where
  "assign_all kds m = fold (\<lambda>(k, d). AList.update k d) kds m"



section \<open>Little-endian integers\<close>

lemma Uint16_PutUint16: "Uint16 (PutUint16 v) = v"
  unfolding Uint16_def PutUint16_def
  apply (rule bit_word_eqI)
  subgoal for n
    by (cases "n < 8"; simp add: bit_simps not_less; (auto)?)
  done

lemma Uint32_PutUint32: "Uint32 (PutUint32 v) = v"
  unfolding Uint32_def PutUint32_def
  apply (rule bit_word_eqI)
  subgoal for n
    by (cases "n < 8"; cases "n < 16"; cases "n < 24"; simp add: bit_simps not_less; (auto)?)
  done



lemma length_PutUint16 [simp]: "length (PutUint16 v) = 2"
  by (simp add: PutUint16_def)

lemma length_PutUint32 [simp]: "length (PutUint32 v) = 4"
  by (simp add: PutUint32_def)

section \<open>Reading what was written\<close>

lemma binary_Read_uint8_Cons: "binary_Read_uint8 (b # r) = Inr (b, r)"
  by (simp add: binary_Read_uint8_def ReadFull_def)

lemma binary_Read_uint16_Put: "binary_Read_uint16 (PutUint16 v @ r) = Inr (v, r)"
  by (simp add: binary_Read_uint16_def ReadFull_def Uint16_PutUint16) (simp add: PutUint16_def)

lemma binary_Read_uint32_Put: "binary_Read_uint32 (PutUint32 v @ r) = Inr (v, r)"
  by (simp add: binary_Read_uint32_def ReadFull_def Uint32_PutUint32) (simp add: PutUint32_def)






lemma read_infos_put: "read_infos (length ris) (put_infos ris @ r) = Inr (ris, r)"
  by (induction ris) (simp_all add: put_infos_def put_info_def binary_Read_uint16_Put binary_Read_uint32_Put)


section \<open>The loop over the resources\<close>

lemma reader_Read_whole: "reader_Read (length d) (d @ r) = (length d, None, d, r)"
  by (cases d) (simp_all add: reader_Read_def)


lemma reader_Read_short:
  assumes "length r < len"
  shows "reader_Read len r = (if r = [] then (0, Some EOF, [], r) else (length r, None, r, []))"
  using assms by (simp add: reader_Read_def)

lemma read_resources_ok:
  "map length ds = declared_lengths ris \<Longrightarrow>
   read_resources ris (concat ds @ rest) m = Inr (assign_all (zip (map id_ri ris) ds) m)"
proof (induction ris arbitrary: ds m rule: declared_lengths.induct)
  case (1 ri ri' ris)
  then obtain d ds' where ds: "ds = d # ds'" and d: "length d = unat (offset ri' - offset ri)"
    and ds': "map length ds' = declared_lengths (ri' # ris)"
    by (cases ds) auto
  have "reader_Read (unat (offset ri' - offset ri)) (d @ concat ds' @ rest)
          = (unat (offset ri' - offset ri), None, d, concat ds' @ rest)"
    using reader_Read_whole [of d "concat ds' @ rest"] by (simp add: d)
  then show ?case
    using "1.IH" [OF ds', of "AList.update (id_ri ri) d m"]
    by (simp add: ds assign_all_def)
next
  case (2 ri)
  then show ?case by (simp add: assign_all_def)
next
  case 3
  then show ?case by (simp add: assign_all_def)
qed


lemma read_resources_short:
  "Suc k < length ris \<Longrightarrow> map length ds = declared_lengths (take (Suc k) ris) \<Longrightarrow>
   length tail < unat (offset (ris ! Suc k) - offset (ris ! k)) \<Longrightarrow>
   read_resources ris (concat ds @ tail) m =
     Inl (if tail = [] then EOF else ErrReadResource (id_ri (ris ! k)))"
proof (induction ris arbitrary: k ds m rule: declared_lengths.induct)
  case (1 ri ri' ris)
  show ?case
  proof (cases k)
    case 0
    with "1.prems" have ds: "ds = []" and short: "length tail < unat (offset ri' - offset ri)"
      by auto
    show ?thesis
      using short by (simp add: ds 0 reader_Read_short)
  next
    case (Suc k')
    with "1.prems" obtain d ds' where ds: "ds = d # ds'"
      and d: "length d = unat (offset ri' - offset ri)"
      and ds': "map length ds' = declared_lengths (take (Suc k') (ri' # ris))"
      by (cases ds) auto
    have rr: "reader_Read (unat (offset ri' - offset ri)) (d @ concat ds' @ tail)
          = (unat (offset ri' - offset ri), None, d, concat ds' @ tail)"
      using reader_Read_whole [of d "concat ds' @ tail"] by (simp add: d)
    from "1.prems" Suc have len: "Suc k' < length (ri' # ris)"
      and short: "length tail < unat (offset ((ri' # ris) ! Suc k') - offset ((ri' # ris) ! k'))"
      by auto
    show ?thesis
      using "1.IH" [OF len ds' short, of "AList.update (id_ri ri) d m"] rr
      by (simp add: ds Suc)
  qed
next
  case (2 ri)
  then show ?case by simp
next
  case 3
  then show ?case by simp
qed

section \<open>Read on a stream that starts with a header and an index\<close>

lemma unat_Suc_uint32:
  fixes n :: uint32
  assumes "Suc (unat n) < 2 ^ 32"
  shows "unat (n + 1) = Suc (unat n)"
  using assms by (simp add: unat_word_ariths)


lemma Read_header:
  "Read (pak_header v n e @ r) =
     (case read_infos (unat (n + 1)) r of Inl err \<Rightarrow> Inl err
      | Inr (resInfos, r4) \<Rightarrow>
          if \<not> unat n < length resInfos then Inl PanicIndexOutOfRange
          else if id_ri (resInfos ! unat n) \<noteq> 0 then Inl ErrLastId
          else (case read_resources resInfos r4 [] of Inl err \<Rightarrow> Inl err
                | Inr res \<Rightarrow> Inr \<lparr>Version = v, Encoding = e, Resourses = res\<rparr>))"
  by (simp add: Read_def pak_header_def binary_Read_uint32_Put binary_Read_uint8_Cons)

lemma Read_index:
  assumes "length ris = Suc (unat n)" and "length ris < 2 ^ 32"
  shows "Read (pak_header v n e @ put_infos ris @ r) =
     (if id_ri (last ris) \<noteq> 0 then Inl ErrLastId
      else (case read_resources ris r [] of Inl err \<Rightarrow> Inl err
            | Inr res \<Rightarrow> Inr \<lparr>Version = v, Encoding = e, Resourses = res\<rparr>))"
proof -
  from assms have "unat (n + 1) = length ris"
    using unat_Suc_uint32 [of n] by simp
  moreover from assms have "ris ! unat n = last ris"
    by (cases ris rule: rev_cases) (simp_all add: nth_append)
  ultimately show ?thesis
    using read_infos_put [of ris r] assms by (simp add: Read_header)
qed

lemma Read_layout:
  assumes "length ris = Suc (unat n)" and "length ris < 2 ^ 32"
    and "id_ri (last ris) = 0" and "map length ds = declared_lengths ris"
  shows "Read (pak_header v n e @ put_infos ris @ concat ds @ rest) =
     Inr \<lparr>Version = v, Encoding = e, Resourses = assign_all (zip (map id_ri ris) ds) []\<rparr>"
  using assms by (simp add: Read_index read_resources_ok)

lemma Read_last_id:
  assumes "length ris = Suc (unat n)" and "length ris < 2 ^ 32" and "id_ri (last ris) \<noteq> 0"
  shows "Read (pak_header v n e @ put_infos ris @ r) = Inl ErrLastId"
  using assms by (simp add: Read_index)

lemma Read_truncated:
  assumes "length ris = Suc (unat n)" and "length ris < 2 ^ 32"
    and "id_ri (last ris) = 0" and "k < unat n"
    and "map length ds = declared_lengths (take (Suc k) ris)"
    and "length tail < unat (offset (ris ! Suc k) - offset (ris ! k))"
  shows "Read (pak_header v n e @ put_infos ris @ concat ds @ tail) =
     Inl (if tail = [] then EOF else ErrReadResource (id_ri (ris ! k)))"
proof -
  from assms have "Suc k < length ris" by simp
  from read_resources_short [OF this assms(5) assms(6), of "[]"] assms(1-3)
  show ?thesis by (simp add: Read_index)
qed

lemma Read_count_max: "Read (pak_header v (- 1) e @ r) = Inl PanicIndexOutOfRange"
  by (simp add: Read_header)


section \<open>What Write writes\<close>

lemma insort_uint: "insort (uint k) (map uint ks) = map uint (insort k ks)"
  by (induction ks) (simp_all add: word_le_def)

lemma sort_uint: "sort (map uint ks) = map uint (sort ks)"
  by (induction ks) (simp_all add: insort_uint)

lemma Write_ids:
  "sort (map (\<lambda>(resId, _). uint resId) (Resourses p)) = map uint (ids_ascending p)"
proof -
  have "map (\<lambda>(resId, _). uint resId) (Resourses p) = map uint (map fst (Resourses p))"
    by (simp add: case_prod_beta')
  then show ?thesis by (simp only: sort_uint ids_ascending_def)
qed

lemma binary_Write_None [simp]: "binary_Write bs w = (None, w @ bs)"
  by (simp add: binary_Write_def writer_Write_def)

lemma write_index_index_from:
  "\<exists>bs final. write_index p (map uint ks) cur w = (None, final, w @ bs) \<and>
     bs @ PutUint16 0 @ PutUint32 final =
       put_infos (index_from cur (map (\<lambda>k. (k, length (lookup_res p k))) ks))"
proof (induction ks arbitrary: cur w)
  case Nil
  have "write_index p (map uint []) cur w = (None, cur, w @ []) \<and>
     [] @ PutUint16 0 @ PutUint32 cur =
       put_infos (index_from cur (map (\<lambda>k. (k, length (lookup_res p k))) []))"
    by (simp add: put_infos_def put_info_def)
  then show ?case by blast
next
  case (Cons k ks)
  let ?cur' = "cur + word_of_nat (length (lookup_res p k))"
  let ?ris = "index_from ?cur' (map (\<lambda>k. (k, length (lookup_res p k))) ks)"
  from Cons.IH [of ?cur' "w @ PutUint16 k @ PutUint32 cur"] obtain bs' final where
    rec: "write_index p (map uint ks) ?cur' (w @ PutUint16 k @ PutUint32 cur)
           = (None, final, (w @ PutUint16 k @ PutUint32 cur) @ bs')"
    and eq: "bs' @ PutUint16 0 @ PutUint32 final = put_infos ?ris"
    by blast
  have "write_index p (map uint (k # ks)) cur w
          = (None, final, w @ (PutUint16 k @ PutUint32 cur @ bs')) \<and>
     (PutUint16 k @ PutUint32 cur @ bs') @ PutUint16 0 @ PutUint32 final =
       put_infos (index_from cur (map (\<lambda>k. (k, length (lookup_res p k))) (k # ks)))"
    using rec eq by (simp add: put_infos_def put_info_def)
  then show ?case by blast
qed

lemma write_resources_concat:
  "write_resources p (map uint ks) w = (None, w @ concat (map (lookup_res p) ks))"
  by (induction ks arbitrary: w) (simp_all add: writer_Write_def)

lemma Write_layout:
  "Write (Some p) w =
     (None, w @ pak_header (Version p) (word_of_nat (length (Resourses p))) (Encoding p)
          @ put_infos (index_from (9 + 6 * (word_of_nat (length (Resourses p)) + 1))
                (map (\<lambda>k. (k, length (lookup_res p k))) (ids_ascending p)))
          @ concat (map (lookup_res p) (ids_ascending p)))"
proof -
  let ?cur = "9 + (2 + 4) * (word_of_nat (length (Resourses p)) + 1) :: uint32"
  let ?ris = "index_from ?cur (map (\<lambda>k. (k, length (lookup_res p k))) (ids_ascending p))"
  let ?w3 = "w @ PutUint32 (Version p) @ PutUint32 (word_of_nat (length (Resourses p))) @ [Encoding p]"
  from write_index_index_from [of p "ids_ascending p" ?cur ?w3] obtain bs final where
    wi: "write_index p (map uint (ids_ascending p)) ?cur ?w3 = (None, final, ?w3 @ bs)"
    and eq: "bs @ PutUint16 0 @ PutUint32 final = put_infos ?ris"
    by blast
  have "Write (Some p) w =
      (None, ?w3 @ (bs @ PutUint16 0 @ PutUint32 final) @ concat (map (lookup_res p) (ids_ascending p)))"
    using wi by (simp add: Write_def Let_def Write_ids write_resources_concat)
  then show ?thesis
    by (simp only: eq) (simp add: pak_header_def)
qed

lemma Write_nil: "Write None w = (Some ErrNilPak, w)"
  by (simp add: Write_def)

section \<open>The entries of an index\<close>

lemma length_index_from [simp]: "length (index_from cur kls) = Suc (length kls)"
  by (induction cur kls rule: index_from.induct) simp_all

lemma ids_index_from: "map id_ri (index_from cur kls) = map fst kls @ [0]"
  by (induction cur kls rule: index_from.induct) simp_all

lemma index_from_first: "offset (index_from cur kls ! 0) = cur"
  by (cases kls) auto

lemma index_from_next:
  "i < length kls \<Longrightarrow>
   offset (index_from cur kls ! Suc i) = offset (index_from cur kls ! i) + word_of_nat (snd (kls ! i))"
proof (induction cur kls arbitrary: i rule: index_from.induct)
  case (1 cur)
  then show ?case by simp
next
  case (2 cur k l kls)
  show ?case
  proof (cases i)
    case 0
    then show ?thesis by (simp add: index_from_first)
  next
    case (Suc j)
    with 2 show ?thesis by simp
  qed
qed

lemma index_from_last:
  "last (index_from cur kls) = \<lparr>id_ri = 0, offset = cur + word_of_nat (sum_list (map snd kls))\<rparr>"
proof (induction cur kls rule: index_from.induct)
  case (1 cur)
  then show ?case by simp
next
  case (2 cur k l kls)
  have "index_from (cur + word_of_nat l) kls \<noteq> []"
    by (cases kls) auto
  with 2 show ?case by (simp add: add.assoc)
qed


section \<open>Tables\<close>


lemma map_of_assign_all: "map_of (assign_all kds m) = map_of m ++ map_of (rev kds)"
proof (induction kds arbitrary: m)
  case Nil
  then show ?case by (simp add: assign_all_def)
next
  case (Cons kd kds)
  obtain k d where kd: "kd = (k, d)" by (cases kd)
  have "assign_all (kd # kds) m = assign_all kds (AList.update k d m)"
    by (simp add: assign_all_def kd)
  then have "map_of (assign_all (kd # kds) m) = (map_of m)(k \<mapsto> d) ++ map_of (rev kds)"
    by (simp only: Cons.IH update_conv')
  also have "\<dots> = map_of m ++ map_of (rev (kd # kds))"
    by (simp add: kd)
  finally show ?case .
qed




lemma set_ids_ascending [simp]: "set (ids_ascending p) = fst ` set (Resourses p)"
  by (simp add: ids_ascending_def)

lemma length_ids_ascending [simp]: "length (ids_ascending p) = length (Resourses p)"
  by (simp add: ids_ascending_def)

lemma length_Resourses:
  assumes "pak_inv p"
  shows "length (Resourses p) \<le> 65536"
proof -
  have "length (Resourses p) = card (set (map fst (Resourses p)))"
    using assms by (simp add: pak_inv_def distinct_card del: set_map)
  also have "\<dots> \<le> card (UNIV :: uint16 set)"
    by (rule card_mono) simp_all
  also have "\<dots> = 65536" by (simp add: card_word)
  finally show ?thesis .
qed


section \<open>Read after Write\<close>



section \<open>Round trip\<close>





section \<open>Two small tables\<close>

lemma put_infos_Cons: "put_infos (ri # ris) = put_info ri @ put_infos ris"
  by (simp add: put_infos_def)

lemma put_infos_Nil: "put_infos [] = []"
  by (simp add: put_infos_def)

lemma length_pak_header [simp]: "length (pak_header v n e) = 9"
  by (simp add: pak_header_def)

lemma length_put_info [simp]: "length (put_info ri) = 6"
  by (simp add: put_info_def)


text \<open>
  C6 (empty table). The table with no resource, of any version and encoding, is written
  as 15 bytes: the header with the count 0 and the single entry \<open>(0, 15)\<close>; and
  \<^verbatim>\<open>Read\<close> of these 15 bytes returns the table with no resource and the same version
  and encoding.
\<close>

theorem Write_Read_empty_table:
  "Write (Some \<lparr>Version = v, Encoding = e, Resourses = []\<rparr>) []
     = (None, pak_header v 0 e @ [0, 0, 15, 0, 0, 0]) \<and>
   length (pak_header v 0 e @ [0, 0, 15, 0, 0, 0]) = 15 \<and>
   Read (pak_header v 0 e @ [0, 0, 15, 0, 0, 0])
     = Inr \<lparr>Version = v, Encoding = e, Resourses = []\<rparr>"
proof -
  let ?p = "\<lparr>Version = v, Encoding = e, Resourses = []\<rparr>"
  let ?ris = "[\<lparr>id_ri = 0, offset = 15\<rparr>]"
  have bytes: "put_infos ?ris = [0, 0, 15, 0, 0, 0]"
    by (simp add: put_infos_def put_info_def PutUint16_def PutUint32_def)
  have "ids_ascending ?p = []" by (simp add: ids_ascending_def)
  then have "Write (Some ?p) [] = (None, pak_header v 0 e @ put_infos ?ris)"
    by (simp add: Write_layout)
  moreover have "Read (pak_header v 0 e @ put_infos ?ris @ concat [] @ [])
      = Inr \<lparr>Version = v, Encoding = e, Resourses = assign_all (zip (map id_ri ?ris) []) []\<rparr>"
    by (rule Read_layout) simp_all
  ultimately show ?thesis
    by (simp add: bytes assign_all_def)
qed

section \<open>The order of the identifiers\<close>

lemma distinct_ids_ascending: "pak_inv p \<Longrightarrow> distinct (ids_ascending p)"
  by (simp add: pak_inv_def ids_ascending_def)

lemma sorted_ids_ascending: "sorted (ids_ascending p)"
  by (simp add: ids_ascending_def)

lemma strict_ids_ascending:
  assumes "pak_inv p"
  shows "sorted_wrt (<) (map unat (ids_ascending p))"
proof -
  have "sorted_wrt (<) (ids_ascending p)"
    using sorted_ids_ascending [of p] distinct_ids_ascending [OF assms]
    by (simp add: strict_sorted_iff)
  then show ?thesis
    by (simp add: sorted_wrt_map word_less_nat_alt [symmetric])
qed

lemma same_table_same_ids:
  assumes "pak_inv p" and "pak_inv q" and "map_of (Resourses p) = map_of (Resourses q)"
  shows "ids_ascending p = ids_ascending q"
proof (rule sorted_distinct_set_unique)
  have "dom (map_of (Resourses p)) = dom (map_of (Resourses q))"
    using assms(3) by simp
  then show "set (ids_ascending p) = set (ids_ascending q)"
    by (simp add: dom_map_of_conv_image_fst)
qed (simp_all add: sorted_ids_ascending distinct_ids_ascending assms)

lemma same_table_same_length:
  assumes "pak_inv p" and "pak_inv q" and "map_of (Resourses p) = map_of (Resourses q)"
  shows "length (Resourses p) = length (Resourses q)"
proof -
  have "length (ids_ascending p) = length (ids_ascending q)"
    using same_table_same_ids [OF assms] by simp
  then show ?thesis by simp
qed

lemma same_table_same_lookup:
  assumes "map_of (Resourses p) = map_of (Resourses q)"
  shows "lookup_res p = lookup_res q"
  by (rule ext) (simp add: lookup_res_def assms)

text \<open>
  C2 (determinism). Two tables with the same version, the same encoding and the same
  mapping from identifiers to payloads are written as the same bytes, in whatever order
  the entries of either map are visited.
\<close>

theorem Write_deterministic:
  assumes "pak_inv p" and "pak_inv q"
    and "Version p = Version q" and "Encoding p = Encoding q"
    and "map_of (Resourses p) = map_of (Resourses q)"
  shows "Write (Some p) [] = Write (Some q) []"
  using same_table_same_ids [OF assms(1,2,5)] same_table_same_length [OF assms(1,2,5)]
    same_table_same_lookup [OF assms(5)] assms(3,4)
  by (simp add: Write_layout)

theorem Write_deterministic_witness:
  "pak_inv \<lparr>Version = 1, Encoding = 2, Resourses = [(300, [98]), (7, [97]), (5, [])]\<rparr> \<and>
   pak_inv \<lparr>Version = 1, Encoding = 2, Resourses = [(5, []), (7, [97]), (300, [98])]\<rparr> \<and>
   map_of [(300 :: uint16, [98 :: byte]), (7, [97]), (5, [])] = map_of [(5, []), (7, [97]), (300, [98])] \<and>
   Write (Some \<lparr>Version = 1, Encoding = 2, Resourses = [(300, [98]), (7, [97]), (5, [])]\<rparr>) []
     = Write (Some \<lparr>Version = 1, Encoding = 2, Resourses = [(5, []), (7, [97]), (300, [98])]\<rparr>) []"
proof -
  let ?p = "\<lparr>Version = 1, Encoding = 2, Resourses = [(300, [98]), (7, [97]), (5, [])]\<rparr>"
  let ?q = "\<lparr>Version = 1, Encoding = 2, Resourses = [(5, []), (7, [97]), (300, [98])]\<rparr>"
  have 1: "pak_inv ?p" and 2: "pak_inv ?q" by (simp_all add: pak_inv_def)
  have 3: "Version ?p = Version ?q" and 4: "Encoding ?p = Encoding ?q" by simp_all
  have 5: "map_of (Resourses ?p) = map_of (Resourses ?q)" by (auto simp add: fun_eq_iff)
  from Write_deterministic [OF 1 2 3 4 5] 1 2 5 show ?thesis by simp
qed

text \<open>
  C7 (ascending order). The bytes written are the header, then one index entry for each
  identifier of the table in strictly ascending numeric order followed by the entry with
  identifier 0, then the payloads in the same ascending order. In particular a table
  with the identifiers 300 and 7 is written with the entry for 7 before the entry for
  300 and the payload of 7 before the payload of 300, in whichever order the map holds
  them.
\<close>

theorem Write_ascending:
  assumes "pak_inv p"
  shows "(\<exists>ris. Write (Some p) [] =
            (None, pak_header (Version p) (word_of_nat (length (Resourses p))) (Encoding p)
                 @ put_infos ris @ concat (map (lookup_res p) (ids_ascending p))) \<and>
          map id_ri ris = ids_ascending p @ [0]) \<and>
     set (ids_ascending p) = fst ` set (Resourses p) \<and>
     sorted_wrt (<) (map unat (ids_ascending p)) \<and>
     Write (Some \<lparr>Version = v, Encoding = e, Resourses = [(300, b), (7, a)]\<rparr>) []
       = (None, pak_header v 2 e
              @ put_infos [\<lparr>id_ri = 7, offset = 27\<rparr>,
                           \<lparr>id_ri = 300, offset = 27 + word_of_nat (length a)\<rparr>,
                           \<lparr>id_ri = 0, offset = 27 + word_of_nat (length a) + word_of_nat (length b)\<rparr>]
              @ a @ b) \<and>
     Write (Some \<lparr>Version = v, Encoding = e, Resourses = [(7, a), (300, b)]\<rparr>) []
       = Write (Some \<lparr>Version = v, Encoding = e, Resourses = [(300, b), (7, a)]\<rparr>) []"
proof -
  let ?kls = "map (\<lambda>k. (k, length (lookup_res p k))) (ids_ascending p)"
  let ?ris = "index_from (9 + 6 * (word_of_nat (length (Resourses p)) + 1)) ?kls"
  have "Write (Some p) [] =
            (None, pak_header (Version p) (word_of_nat (length (Resourses p))) (Encoding p)
                 @ put_infos ?ris @ concat (map (lookup_res p) (ids_ascending p))) \<and>
          map id_ri ?ris = ids_ascending p @ [0]"
    by (simp add: Write_layout ids_index_from comp_def)
  then have 1: "\<exists>ris. Write (Some p) [] =
            (None, pak_header (Version p) (word_of_nat (length (Resourses p))) (Encoding p)
                 @ put_infos ris @ concat (map (lookup_res p) (ids_ascending p))) \<and>
          map id_ri ris = ids_ascending p @ [0]"
    by blast
  let ?x = "\<lparr>Version = v, Encoding = e, Resourses = [(300, b), (7, a)]\<rparr>"
  let ?y = "\<lparr>Version = v, Encoding = e, Resourses = [(7, a), (300, b)]\<rparr>"
  have le: "(7 :: uint16) \<le> 300" "\<not> (300 :: uint16) \<le> 7" by simp_all
  have x: "ids_ascending ?x = [7, 300]" and y: "ids_ascending ?y = [7, 300]"
    using le by (simp_all add: ids_ascending_def)
  have lx: "lookup_res ?x 7 = a" "lookup_res ?x 300 = b"
    and ly: "lookup_res ?y 7 = a" "lookup_res ?y 300 = b"
    by (simp_all add: lookup_res_def)
  have 2: "Write (Some ?x) [] = (None, pak_header v 2 e
              @ put_infos [\<lparr>id_ri = 7, offset = 27\<rparr>,
                           \<lparr>id_ri = 300, offset = 27 + word_of_nat (length a)\<rparr>,
                           \<lparr>id_ri = 0, offset = 27 + word_of_nat (length a) + word_of_nat (length b)\<rparr>]
              @ a @ b)"
    by (simp add: Write_layout x lx)
  have 3: "Write (Some ?y) [] = Write (Some ?x) []"
    by (simp add: Write_layout x y lx ly)
  from 1 2 3 strict_ids_ascending [OF assms] show ?thesis by simp
qed

theorem Write_ascending_witness:
  "pak_inv \<lparr>Version = 1, Encoding = 0, Resourses = [(300, [98]), (7, [97])]\<rparr> \<and>
   (\<exists>ris. Write (Some \<lparr>Version = 1, Encoding = 0, Resourses = [(300, [98]), (7, [97])]\<rparr>) [] =
            (None, pak_header 1 2 0 @ put_infos ris @ [97, 98]) \<and>
          map id_ri ris = [7, 300, 0])"
proof -
  let ?p = "\<lparr>Version = 1, Encoding = 0, Resourses = [(300, [98]), (7, [97])]\<rparr>"
  have 1: "pak_inv ?p" by (simp add: pak_inv_def)
  have le: "(7 :: uint16) \<le> 300" "\<not> (300 :: uint16) \<le> 7" by simp_all
  have ids: "ids_ascending ?p = [7, 300]"
    using le by (simp add: ids_ascending_def)
  have l: "lookup_res ?p 7 = [97]" "lookup_res ?p 300 = [98]"
    by (simp_all add: lookup_res_def)
  from Write_ascending [OF 1, of 0 0 "[]" "[]"] 1 show ?thesis
    by (simp add: ids l)
qed

section \<open>The offsets of the index\<close>

lemma unat_add_of_nat:
  fixes a :: uint32
  shows "unat (a + word_of_nat l) = (unat a + l) mod 2 ^ 32"
  by (simp add: unat_word_ariths unat_of_nat mod_add_right_eq)

lemma unat_start_offset:
  assumes "pak_inv p"
  shows "unat (9 + 6 * (word_of_nat (length (Resourses p)) + 1) :: uint32)
           = 9 + 6 * (length (Resourses p) + 1)"
proof -
  have "(9 + 6 * (word_of_nat (length (Resourses p)) + 1) :: uint32)
          = word_of_nat (9 + 6 * (length (Resourses p) + 1))"
    by simp
  moreover have "9 + 6 * (length (Resourses p) + 1) < 2 ^ 32"
    using length_Resourses [OF assms] by simp
  ultimately show ?thesis by (simp add: unat_of_nat del: of_nat_add of_nat_mult)
qed



lemma Write_4GiB:
  assumes "length d = 2 ^ 32"
  shows "Write (Some \<lparr>Version = 0, Encoding = 0, Resourses = [(1, d)]\<rparr>) []
           = (None, pak_header 0 1 0
                  @ put_infos [\<lparr>id_ri = 1, offset = 21\<rparr>, \<lparr>id_ri = 0, offset = 21\<rparr>] @ d)"
proof -
  let ?p = "\<lparr>Version = 0, Encoding = 0, Resourses = [(1, d)]\<rparr>"
  have ids: "ids_ascending ?p = [1]" by (simp add: ids_ascending_def)
  have d: "lookup_res ?p 1 = d" by (simp add: lookup_res_def)
  have "word_of_nat (length d) = (0 :: uint32)" by (simp add: assms)
  then show ?thesis by (simp add: Write_layout ids d)
qed



text \<open>
  C8 (offsets), as the code has it. The offsets are \<^verbatim>\<open>uint32\<close> values and the code adds
  \<^verbatim>\<open>uint32(len(...))\<close> to them, so every sum is taken modulo \<open>2 ^ 32\<close>. For a table
  with \<open>N\<close> resources, the index written has \<open>N + 1\<close> entries; the offset of the first
  entry is \<open>9 + 6 * (N + 1)\<close>; the offset of each later entry is the offset of the entry
  before it plus the length of that entry's payload, modulo \<open>2 ^ 32\<close>; and the last
  entry has the identifier 0 and the offset \<open>9 + 6 * (N + 1)\<close> plus the total length
  of the payloads, modulo \<open>2 ^ 32\<close>.
\<close>

theorem Write_offsets:
  assumes "pak_inv p"
  shows "\<exists>ris. Write (Some p) [] =
            (None, pak_header (Version p) (word_of_nat (length (Resourses p))) (Encoding p)
                 @ put_infos ris @ concat (map (lookup_res p) (ids_ascending p))) \<and>
          length ris = Suc (length (Resourses p)) \<and>
          map id_ri ris = ids_ascending p @ [0] \<and>
          unat (offset (ris ! 0)) = 9 + 6 * (length (Resourses p) + 1) \<and>
          (\<forall>i < length (Resourses p).
             unat (offset (ris ! Suc i)) =
               (unat (offset (ris ! i)) + length (lookup_res p (id_ri (ris ! i)))) mod 2 ^ 32) \<and>
          id_ri (ris ! length (Resourses p)) = 0 \<and>
          unat (offset (ris ! length (Resourses p))) =
            (9 + 6 * (length (Resourses p) + 1)
               + sum_list (map (\<lambda>k. length (lookup_res p k)) (ids_ascending p))) mod 2 ^ 32"
proof -
  let ?N = "length (Resourses p)"
  let ?ks = "ids_ascending p"
  let ?kls = "map (\<lambda>k. (k, length (lookup_res p k))) ?ks"
  let ?start = "9 + 6 * (word_of_nat ?N + 1) :: uint32"
  let ?ris = "index_from ?start ?kls"
  have w: "Write (Some p) [] =
            (None, pak_header (Version p) (word_of_nat ?N) (Encoding p)
                 @ put_infos ?ris @ concat (map (lookup_res p) ?ks))"
    by (simp add: Write_layout)
  have len: "length ?ris = Suc ?N" by simp
  have ids: "map id_ri ?ris = ?ks @ [0]" by (simp add: ids_index_from comp_def)
  have first: "unat (offset (?ris ! 0)) = 9 + 6 * (?N + 1)"
    by (simp only: index_from_first unat_start_offset [OF assms])
  have "unat (offset (?ris ! Suc i)) =
          (unat (offset (?ris ! i)) + length (lookup_res p (id_ri (?ris ! i)))) mod 2 ^ 32"
    if i: "i < ?N" for i
  proof -
    from i have "id_ri (?ris ! i) = map id_ri ?ris ! i" by simp
    also have "\<dots> = ?ks ! i" using i by (simp only: ids) (simp add: nth_append)
    finally have k: "id_ri (?ris ! i) = ?ks ! i" .
    from i have "offset (?ris ! Suc i) = offset (?ris ! i) + word_of_nat (snd (?kls ! i))"
      by (intro index_from_next) simp
    also from i have "snd (?kls ! i) = length (lookup_res p (?ks ! i))" by simp
    finally show ?thesis by (simp only: k unat_add_of_nat)
  qed
  then have step: "\<forall>i < ?N. unat (offset (?ris ! Suc i)) =
          (unat (offset (?ris ! i)) + length (lookup_res p (id_ri (?ris ! i)))) mod 2 ^ 32"
    by blast
  have "?ris \<noteq> []" using len by (metis length_0_conv nat.distinct(1))
  then have "last ?ris = ?ris ! (length ?ris - 1)" by (rule last_conv_nth)
  then have "?ris ! ?N = last ?ris" by (simp only: len diff_Suc_1)
  then have lst: "?ris ! ?N = \<lparr>id_ri = 0, offset = ?start + word_of_nat (sum_list (map snd ?kls))\<rparr>"
    by (simp only: index_from_last)
  have sm: "map snd ?kls = map (\<lambda>k. length (lookup_res p k)) ?ks" by (simp add: comp_def)
  from lst have last_id: "id_ri (?ris ! ?N) = 0" by simp
  from lst have "unat (offset (?ris ! ?N)) =
      (unat ?start + sum_list (map (\<lambda>k. length (lookup_res p k)) ?ks)) mod 2 ^ 32"
    by (simp only: sm unat_add_of_nat resourceInfo.simps)
  then have last_off: "unat (offset (?ris ! ?N)) =
      (9 + 6 * (?N + 1) + sum_list (map (\<lambda>k. length (lookup_res p k)) ?ks)) mod 2 ^ 32"
    by (simp only: unat_start_offset [OF assms])
  show ?thesis
  proof (intro exI [of _ ?ris] conjI)
    show "Write (Some p) [] =
            (None, pak_header (Version p) (word_of_nat ?N) (Encoding p)
                 @ put_infos ?ris @ concat (map (lookup_res p) ?ks))" by (fact w)
    show "length ?ris = Suc ?N" by (fact len)
    show "map id_ri ?ris = ?ks @ [0]" by (fact ids)
    show "unat (offset (?ris ! 0)) = 9 + 6 * (?N + 1)" by (fact first)
    show "\<forall>i < ?N. unat (offset (?ris ! Suc i)) =
          (unat (offset (?ris ! i)) + length (lookup_res p (id_ri (?ris ! i)))) mod 2 ^ 32"
      by (fact step)
    show "id_ri (?ris ! ?N) = 0" by (fact last_id)
    show "unat (offset (?ris ! ?N)) =
      (9 + 6 * (?N + 1) + sum_list (map (\<lambda>k. length (lookup_res p k)) ?ks)) mod 2 ^ 32"
      by (fact last_off)
  qed
qed

theorem Write_offsets_witness:
  "pak_inv \<lparr>Version = 1, Encoding = 0, Resourses = [(300, [98, 99]), (7, [97])]\<rparr> \<and>
   (\<exists>ris. Write (Some \<lparr>Version = 1, Encoding = 0, Resourses = [(300, [98, 99]), (7, [97])]\<rparr>) [] =
            (None, pak_header 1 2 0 @ put_infos ris @ [97, 98, 99]) \<and>
          length ris = 3 \<and>
          map id_ri ris = [7, 300, 0] \<and>
          unat (offset (ris ! 0)) = 27 \<and>
          unat (offset (ris ! 1)) = 28 \<and>
          unat (offset (ris ! 2)) = 30)"
proof -
  let ?p = "\<lparr>Version = 1, Encoding = 0, Resourses = [(300, [98, 99]), (7, [97])]\<rparr>"
  have 1: "pak_inv ?p" by (simp add: pak_inv_def)
  have le: "(7 :: uint16) \<le> 300" "\<not> (300 :: uint16) \<le> 7" by simp_all
  have ids: "ids_ascending ?p = [7, 300]"
    using le by (simp add: ids_ascending_def)
  have l: "lookup_res ?p 7 = [97]" "lookup_res ?p 300 = [98, 99]"
    by (simp_all add: lookup_res_def)
  from Write_offsets [OF 1] obtain ris where big:
    "Write (Some ?p) [] =
            (None, pak_header (Version ?p) (word_of_nat (length (Resourses ?p))) (Encoding ?p)
                 @ put_infos ris @ concat (map (lookup_res ?p) (ids_ascending ?p))) \<and>
          length ris = Suc (length (Resourses ?p)) \<and>
          map id_ri ris = ids_ascending ?p @ [0] \<and>
          unat (offset (ris ! 0)) = 9 + 6 * (length (Resourses ?p) + 1) \<and>
          (\<forall>i < length (Resourses ?p).
             unat (offset (ris ! Suc i)) =
               (unat (offset (ris ! i)) + length (lookup_res ?p (id_ri (ris ! i)))) mod 2 ^ 32) \<and>
          id_ri (ris ! length (Resourses ?p)) = 0 \<and>
          unat (offset (ris ! length (Resourses ?p))) =
            (9 + 6 * (length (Resourses ?p) + 1)
               + sum_list (map (\<lambda>k. length (lookup_res ?p k)) (ids_ascending ?p))) mod 2 ^ 32" ..
  from big [THEN conjunct1]
  have w: "Write (Some ?p) [] = (None, pak_header 1 2 0 @ put_infos ris @ [97, 98, 99])"
    by (simp add: ids l)
  from big [THEN conjunct2, THEN conjunct1]
  have len: "length ris = 3" by simp
  from big [THEN conjunct2, THEN conjunct2, THEN conjunct1]
  have m: "map id_ri ris = [7, 300, 0]" by (simp add: ids)
  from big [THEN conjunct2, THEN conjunct2, THEN conjunct2, THEN conjunct1]
  have f: "unat (offset (ris ! 0)) = 27" by simp
  from big [THEN conjunct2, THEN conjunct2, THEN conjunct2, THEN conjunct2, THEN conjunct1]
  have s: "\<forall>i < 2. unat (offset (ris ! Suc i)) =
               (unat (offset (ris ! i)) + length (lookup_res ?p (id_ri (ris ! i)))) mod 2 ^ 32"
    by (simp only: PakFile.simps list.size) simp
  from len obtain x y z where ris: "ris = [x, y, z]"
    by (auto simp add: numeral_3_eq_3 length_Suc_conv)
  from m have i0: "id_ri x = 7" and i1: "id_ri y = 300"
    by (simp_all add: ris)
  from f have ox: "unat (offset x) = 27" by (simp add: ris)
  from s have "unat (offset ([x, y, z] ! Suc 0)) =
               (unat (offset ([x, y, z] ! 0)) + length (lookup_res ?p (id_ri ([x, y, z] ! 0)))) mod 2 ^ 32"
    unfolding ris by (rule allE [of _ 0]) simp
  with ox i0 l have oy: "unat (offset y) = 28" by simp
  from s have "unat (offset ([x, y, z] ! Suc 1)) =
               (unat (offset ([x, y, z] ! 1)) + length (lookup_res ?p (id_ri ([x, y, z] ! 1)))) mod 2 ^ 32"
    unfolding ris by (rule allE [of _ 1]) simp
  with oy i1 l have oz: "unat (offset z) = 30" by simp
  have "unat (offset (ris ! 0)) = 27 \<and> unat (offset (ris ! 1)) = 28 \<and> unat (offset (ris ! 2)) = 30"
    using ox oy oz by (simp add: ris)
  with 1 w len m show ?thesis by (intro conjI exI [of _ ris]) simp_all
qed

text \<open>
  C8 as stated fails for a payload of \<open>2 ^ 32\<close> bytes: the table is written with the
  offset 21 in both index entries, while the first offset plus the length of the
  payload is \<open>21 + 2 ^ 32\<close>.
\<close>

theorem Write_offsets_counterexample:
  "Write (Some \<lparr>Version = 0, Encoding = 0, Resourses = [(1, replicate (2 ^ 32) 0)]\<rparr>) []
     = (None, pak_header 0 1 0
            @ put_infos [\<lparr>id_ri = 1, offset = 21\<rparr>, \<lparr>id_ri = 0, offset = 21\<rparr>]
            @ replicate (2 ^ 32) 0) \<and>
   unat (21 :: uint32) \<noteq> 21 + length (replicate (2 ^ 32) (0 :: byte))"
proof -
  define d :: "byte list" where "d = replicate (2 ^ 32) 0"
  have len: "length d = 2 ^ 32" unfolding d_def by (rule length_replicate)
  then have "unat (21 :: uint32) \<noteq> 21 + length d" by simp
  with Write_4GiB [OF len] show ?thesis unfolding d_def by blast
qed

section \<open>The table that Read builds\<close>

lemma length_declared_lengths: "length (declared_lengths ris) = length ris - 1"
  by (induction ris rule: declared_lengths.induct) simp_all



lemma map_of_rev_nth:
  "j < length kds \<Longrightarrow> fst (kds ! j) = k \<Longrightarrow>
   (\<forall>l. j < l \<and> l < length kds \<longrightarrow> fst (kds ! l) \<noteq> k) \<Longrightarrow>
   map_of (rev kds) k = Some (snd (kds ! j))"
proof (induction kds arbitrary: j)
  case Nil
  then show ?case by simp
next
  case (Cons x kds)
  show ?case
  proof (cases j)
    case 0
    have "k \<notin> fst ` set kds"
    proof
      assume "k \<in> fst ` set kds"
      then obtain i where i: "i < length kds" and "fst (kds ! i) = k"
        by (auto simp add: in_set_conv_nth)
      then have "fst ((x # kds) ! Suc i) = k" by simp
      moreover from i 0 have "j < Suc i \<and> Suc i < length (x # kds)" by simp
      ultimately show False using Cons.prems(3) by blast
    qed
    then have "map_of (rev kds) k = None"
      by (simp add: map_of_eq_None_iff)
    moreover from 0 Cons.prems(2) have "fst x = k" by simp
    ultimately show ?thesis
      using 0 by (cases x) (simp add: map_add_def)
  next
    case (Suc j')
    from Cons.prems Suc have 1: "j' < length kds" and 2: "fst (kds ! j') = k" by simp_all
    have 3: "\<forall>l. j' < l \<and> l < length kds \<longrightarrow> fst (kds ! l) \<noteq> k"
    proof (intro allI impI)
      fix l assume "j' < l \<and> l < length kds"
      then have "j < Suc l \<and> Suc l < length (x # kds)" using Suc by simp
      with Cons.prems(3) have "fst ((x # kds) ! Suc l) \<noteq> k" by blast
      then show "fst (kds ! l) \<noteq> k" by simp
    qed
    from Cons.IH [OF 1 2 3] show ?thesis
      by (simp add: Suc map_add_def)
  qed
qed


section \<open>Failures of Read\<close>

text \<open>
  C3 (sentinel enforcement) at the count \<^verbatim>\<open>0xFFFFFFFF\<close>. The stream below is the
  header \<^verbatim>\<open>00 00 00 00 FF FF FF FF 00\<close>, with \<^verbatim>\<open>numberOfResources = 0xFFFFFFFF\<close>,
  and after it \<open>2 ^ 32\<close> index entries \<^verbatim>\<open>01 00 00 00 00 00\<close>: its header and its
  \<open>numberOfResources + 1\<close> entries can be read, and the last entry has the identifier
  1. In \<^verbatim>\<open>Read\<close> the sum \<^verbatim>\<open>numberOfResources+1\<close> is 0 in \<^verbatim>\<open>uint32\<close>, no entry is read,
  and \<^verbatim>\<open>resInfos[numberOfResources]\<close> is outside the empty slice: the run ends in a
  panic, not in the error for the missing last entry.
\<close>

theorem Read_count_max_panics:
  "pak_header 0 4294967295 0 = [0, 0, 0, 0, 255, 255, 255, 255, 0] \<and>
   put_info \<lparr>id_ri = 1, offset = 0\<rparr> = [1, 0, 0, 0, 0, 0] \<and>
   length (replicate (2 ^ 32) \<lparr>id_ri = 1, offset = 0\<rparr>) = Suc (unat (4294967295 :: uint32)) \<and>
   id_ri (last (replicate (2 ^ 32) \<lparr>id_ri = 1, offset = 0\<rparr>)) = 1 \<and>
   Read (pak_header 0 4294967295 0 @ put_infos (replicate (2 ^ 32) \<lparr>id_ri = 1, offset = 0\<rparr>))
     = Inl PanicIndexOutOfRange"
proof -
  define ris where "ris = replicate (2 ^ 32) \<lparr>id_ri = 1 :: uint16, offset = 0 :: uint32\<rparr>"
  have len: "length ris = 2 ^ 32" unfolding ris_def by (rule length_replicate)
  have 1: "length ris = Suc (unat (4294967295 :: uint32))" by (simp add: len)
  have "ris \<noteq> []" using len by auto
  then have "last ris \<in> set ris" by (rule last_in_set)
  then have 2: "id_ri (last ris) = 1" unfolding ris_def by simp
  have m: "(4294967295 :: uint32) = - 1" by simp
  have 3: "Read (pak_header 0 4294967295 0 @ put_infos ris) = Inl PanicIndexOutOfRange"
    unfolding m by (rule Read_count_max)
  have 4: "pak_header 0 4294967295 0 = [0, 0, 0, 0, 255, 255, 255, 255, 0]"
    by (simp add: pak_header_def PutUint32_def)
  have 5: "put_info \<lparr>id_ri = 1, offset = 0\<rparr> = [1, 0, 0, 0, 0, 0]"
    by (simp add: put_info_def PutUint16_def PutUint32_def)
  from 1 2 3 4 5 show ?thesis unfolding ris_def by (intro conjI)
qed

text \<open>
  C4 (truncation), as the code has it. Take a stream that starts with a header and the
  \<open>numberOfResources + 1\<close> index entries it announces, the last with identifier 0, and
  in which the first \<open>k\<close> payloads are there in full but fewer bytes than the declared
  length of resource \<open>k\<close> follow. \<^verbatim>\<open>Read\<close> then fails: with the error that names the
  identifier of resource \<open>k\<close> when at least one byte follows, and with \<^verbatim>\<open>io.EOF\<close>, which
  names no identifier, when none does.
\<close>

theorem Read_truncation:
  assumes "length ris = Suc (unat n)" and "length ris < 2 ^ 32"
    and "id_ri (last ris) = 0" and "k < unat n"
    and "map length ds = declared_lengths (take (Suc k) ris)"
    and "length tail < unat (offset (ris ! Suc k) - offset (ris ! k))"
  shows "Read (pak_header v n e @ put_infos ris @ concat ds @ tail) =
     Inl (if tail = [] then EOF else ErrReadResource (id_ri (ris ! k)))"
  using assms by (rule Read_truncated)

theorem Read_truncation_witness:
  "Read (pak_header 1 2 0
         @ put_infos [\<lparr>id_ri = 5, offset = 27\<rparr>, \<lparr>id_ri = 9, offset = 29\<rparr>, \<lparr>id_ri = 0, offset = 33\<rparr>]
         @ concat [[1, 2]] @ [3])
     = Inl (ErrReadResource 9)"
proof -
  let ?ris = "[\<lparr>id_ri = 5, offset = 27\<rparr>, \<lparr>id_ri = 9, offset = 29\<rparr>, \<lparr>id_ri = 0, offset = 33\<rparr>]"
  have 1: "length ?ris = Suc (unat (2 :: uint32))" by simp
  have 2: "length ?ris < 2 ^ 32" by simp
  have 3: "id_ri (last ?ris) = 0" by simp
  have 4: "1 < unat (2 :: uint32)" by simp
  have 5: "map length [[1, 2 :: byte]] = declared_lengths (take (Suc 1) ?ris)" by simp
  have 6: "length [3 :: byte] < unat (offset (?ris ! Suc 1) - offset (?ris ! 1))" by simp
  from Read_truncation [OF 1 2 3 4 5 6, of 1 0] show ?thesis by simp
qed

text \<open>
  C4 as stated fails when the stream ends exactly where a payload should start: the
  index declares one byte for resource 5, no byte follows, and \<^verbatim>\<open>Read\<close> returns
  \<^verbatim>\<open>io.EOF\<close>, not the error that names 5.
\<close>

theorem Read_truncation_counterexample:
  "Read [1, 0, 0, 0, 1, 0, 0, 0, 0, 5, 0, 21, 0, 0, 0, 0, 0, 22, 0, 0, 0] = Inl EOF \<and>
   EOF \<noteq> ErrReadResource 5"
proof -
  let ?ris = "[\<lparr>id_ri = 5, offset = 21\<rparr>, \<lparr>id_ri = 0, offset = 22\<rparr>]"
  have "Read (pak_header 1 1 0 @ put_infos ?ris @ concat [] @ []) =
     Inl (if ([] :: byte list) = [] then EOF else ErrReadResource (id_ri (?ris ! 0)))"
    by (rule Read_truncated) simp_all
  moreover have "pak_header 1 1 0 @ put_infos ?ris @ concat [] @ []
      = [1, 0, 0, 0, 1, 0, 0, 0, 0, 5, 0, 21, 0, 0, 0, 0, 0, 22, 0, 0, 0]"
    by (simp add: pak_header_def put_infos_def put_info_def PutUint16_def PutUint32_def)
  ultimately show ?thesis by simp
qed

section \<open>Successes of Read\<close>


text \<open>
  C10 (duplicate identifiers). Take a stream that starts with a header, the
  \<open>numberOfResources + 1\<close> index entries it announces, the last with identifier 0, and
  all payloads in their declared lengths. If two entries \<open>i < j\<close> before the last
  carry the same identifier, different from 0, and no entry between \<open>j\<close> and the last
  carries it, then \<^verbatim>\<open>Read\<close> succeeds and the table maps that identifier to the payload
  of entry \<open>j\<close>.
\<close>

theorem Read_duplicate_id:
  assumes "length ris = Suc (unat n)" and "length ris < 2 ^ 32"
    and "id_ri (last ris) = 0" and "map length ds = declared_lengths ris"
    and "i < j" and "j < unat n"
    and "id_ri (ris ! i) = id_ri (ris ! j)" and "id_ri (ris ! j) \<noteq> 0"
    and "\<forall>l. j < l \<and> l < unat n \<longrightarrow> id_ri (ris ! l) \<noteq> id_ri (ris ! j)"
  shows "\<exists>p. Read (pak_header v n e @ put_infos ris @ concat ds @ rest) = Inr p \<and>
           map_of (Resourses p) (id_ri (ris ! j)) = Some (ds ! j)"
proof -
  let ?kds = "zip (map id_ri ris) ds"
  have "length ds = length (declared_lengths ris)"
    using assms(4) by (metis length_map)
  then have lds: "length ds = unat n"
    by (simp add: length_declared_lengths assms(1))
  then have lk: "length ?kds = unat n" by (simp add: assms(1))
  have nth: "?kds ! l = (id_ri (ris ! l), ds ! l)" if "l < unat n" for l
    using that lds assms(1) by simp
  have 1: "j < length ?kds" using assms(6) lk by simp
  have 2: "fst (?kds ! j) = id_ri (ris ! j)" using nth [OF assms(6)] by simp
  have 3: "\<forall>l. j < l \<and> l < length ?kds \<longrightarrow> fst (?kds ! l) \<noteq> id_ri (ris ! j)"
  proof (intro allI impI)
    fix l assume l: "j < l \<and> l < length ?kds"
    then have "l < unat n" using lds by simp
    from nth [OF this] have "fst (?kds ! l) = id_ri (ris ! l)" by simp
    moreover from assms(9) l \<open>l < unat n\<close> have "id_ri (ris ! l) \<noteq> id_ri (ris ! j)" by blast
    ultimately show "fst (?kds ! l) \<noteq> id_ri (ris ! j)" by simp
  qed
  from map_of_rev_nth [OF 1 2 3] nth [OF assms(6)]
  have "map_of (rev ?kds) (id_ri (ris ! j)) = Some (ds ! j)" by simp
  then have "map_of (assign_all ?kds []) (id_ri (ris ! j)) = Some (ds ! j)"
    by (simp add: map_of_assign_all)
  with Read_layout [OF assms(1-4), of v e rest] show ?thesis by simp
qed

theorem Read_duplicate_id_witness:
  "\<exists>p. Read (pak_header 1 2 0
         @ put_infos [\<lparr>id_ri = 5, offset = 27\<rparr>, \<lparr>id_ri = 5, offset = 28\<rparr>, \<lparr>id_ri = 0, offset = 30\<rparr>]
         @ concat [[1], [2, 3]] @ []) = Inr p \<and>
       map_of (Resourses p) 5 = Some [2, 3]"
proof -
  let ?ris = "[\<lparr>id_ri = 5, offset = 27\<rparr>, \<lparr>id_ri = 5, offset = 28\<rparr>, \<lparr>id_ri = 0, offset = 30\<rparr>]"
  have 1: "length ?ris = Suc (unat (2 :: uint32))" by simp
  have 2: "length ?ris < 2 ^ 32" by simp
  have 3: "id_ri (last ?ris) = 0" by simp
  have 4: "map length [[1], [2, 3 :: byte]] = declared_lengths ?ris" by simp
  have 5: "(0 :: nat) < 1" by simp
  have 6: "1 < unat (2 :: uint32)" by simp
  have 7: "id_ri (?ris ! 0) = id_ri (?ris ! 1)" by simp
  have 8: "id_ri (?ris ! 1) \<noteq> 0" by simp
  have 9: "\<forall>l. 1 < l \<and> l < unat (2 :: uint32) \<longrightarrow> id_ri (?ris ! l) \<noteq> id_ri (?ris ! 1)" by simp
  from Read_duplicate_id [OF 1 2 3 4 5 6 7 8 9, of 1 0 "[]"] show ?thesis by simp
qed

end
